theory Spec2Isabelle
  imports Main "HOL-Library.AList"
begin

section \<open>Exceptions and values\<close>

text \<open>
  The exceptions that the cache engine of \<^verbatim>\<open>main.py\<close> can raise.
  \<^verbatim>\<open>StorageFullException\<close> is the only class the module declares; a lookup or a
  \<^verbatim>\<open>del\<close> of an absent dictionary key raises Python's \<^verbatim>\<open>KeyError\<close> (the
  specification's \<^emph>\<open>NotFound\<close>), and reading an attribute of \<^verbatim>\<open>None\<close> raises
  \<^verbatim>\<open>AttributeError\<close>. Every operation returns its outcome together with the state
  it leaves behind: an exception does not undo the mutations made before it.
\<close>

datatype error = StorageFullException | KeyError | AttributeError

text \<open>
  What a level stores and returns: a payload of the caller, or a
  \<^verbatim>\<open>ReadResponse(value, time_took)\<close> object around a stored thing. The elapsed time is
  a wall-clock reading and is left out; no operation branches on it.
  \<^verbatim>\<open>WriteResponse(None, time_took)\<close> carries no payload.
\<close>

datatype 'v pyval = Raw 'v | ReadResponse "'v pyval"

datatype write_response = WriteResponse


section \<open>Storage\<close>

text \<open>
  \<^verbatim>\<open>BaseStorage.__init__(capacity=float('inf'))\<close>: the capacity is a number the caller
  gives, or infinity. The dictionary \<^verbatim>\<open>db\<close> is an association list read with
  \<^const>\<open>map_of\<close>; \<^verbatim>\<open>len(self.db)\<close> counts its keys.
\<close>

datatype capacity = Finite int | Unbounded

record ('k, 'v) HashMapBasedStorage =
  capacity :: capacity
  db :: "('k \<times> 'v) list"

definition HashMapBasedStorage_init :: "capacity \<Rightarrow> ('k, 'v) HashMapBasedStorage" where
  "HashMapBasedStorage_init cap = \<lparr>capacity = cap, db = []\<rparr>"

definition len :: "('k \<times> 'v) list \<Rightarrow> nat" where
  "len d = card (fst ` set d)"

definition Storage_put ::
  "('k, 'v) HashMapBasedStorage \<Rightarrow> 'k \<Rightarrow> 'v \<Rightarrow> (error + unit) \<times> ('k, 'v) HashMapBasedStorage" where
  "Storage_put s key value =
     (if Finite (int (len (db s))) = capacity s then (Inl StorageFullException, s)
      else (Inr (), s\<lparr>db := AList.update key value (db s)\<rparr>))"

definition Storage_get :: "('k, 'v) HashMapBasedStorage \<Rightarrow> 'k \<Rightarrow> error + 'v" where
  "Storage_get s key = (case map_of (db s) key of None \<Rightarrow> Inl KeyError | Some v \<Rightarrow> Inr v)"

definition Storage_remove ::
  "('k, 'v) HashMapBasedStorage \<Rightarrow> 'k \<Rightarrow> (error + unit) \<times> ('k, 'v) HashMapBasedStorage" where
  "Storage_remove s key =
     (case map_of (db s) key of
        None \<Rightarrow> (Inl KeyError, s)
      | Some _ \<Rightarrow> (Inr (), s\<lparr>db := AList.delete key (db s)\<rparr>))"


section \<open>The recency list\<close>

text \<open>
  \<^verbatim>\<open>Node\<close> objects are mutated through several references at once (the index of the
  policy, \<^verbatim>\<open>head\<close>, \<^verbatim>\<open>tail\<close>, the \<^verbatim>\<open>prev\<close> and \<^verbatim>\<open>next\<close> of other nodes), so they
  live in an explicit store. A reference is an address; \<^verbatim>\<open>None\<close> is \<^const>\<open>None\<close>.
  The store keeps one map per field. \<^verbatim>\<open>fresh\<close> is the address the next
  \<^verbatim>\<open>Node(key)\<close> gets. The list object \<^verbatim>\<open>LL\<close> is its two references \<^verbatim>\<open>head\<close> and
  \<^verbatim>\<open>tail\<close>; the record holds them next to the store they point into.
\<close>

record 'k LL =
  head :: "nat option"
  tail :: "nat option"
  val :: "nat \<Rightarrow> 'k option"
  prev :: "nat \<Rightarrow> nat option"
  "next" :: "nat \<Rightarrow> nat option"
  fresh :: nat

definition LL_init :: "'k LL" where
  "LL_init = \<lparr>head = None, tail = None, val = (\<lambda>_. None),
              prev = (\<lambda>_. None), next = (\<lambda>_. None), fresh = 0\<rparr>"

text \<open>\<^verbatim>\<open>Node(key)\<close>: a new object with \<^verbatim>\<open>prev = next = None\<close>.\<close>

definition Node :: "'k LL \<Rightarrow> 'k \<Rightarrow> nat \<times> 'k LL" where
  "Node l key =
     (fresh l, l\<lparr>val := (val l)(fresh l := Some key),
                 prev := (prev l)(fresh l := None),
                 next := (next l)(fresh l := None),
                 fresh := Suc (fresh l)\<rparr>)"

text \<open>
  \<^verbatim>\<open>LL.make_node_head\<close>, statement by statement. The \<^verbatim>\<open>elif node.next is None\<close>
  branch is entered with \<^verbatim>\<open>node.prev\<close> set (the test before it failed), so the only
  statement that can raise is \<^verbatim>\<open>prev.next = next\<close> of the last branch, when
  \<^verbatim>\<open>node.prev\<close> is \<^verbatim>\<open>None\<close>.
\<close>

function make_node_head :: "'k LL \<Rightarrow> nat \<Rightarrow> (error + unit) \<times> 'k LL" where
  "make_node_head l node =
     (if Some node = head l then (Inr (), l)
      else case head l of
        None \<Rightarrow>
          (let l1 = l\<lparr>head := Some node, tail := Some node\<rparr>;
               l2 = l1\<lparr>next := (next l1)(node := tail l1)\<rparr>;
               l3 = l2\<lparr>prev := (prev l2)(node := head l2)\<rparr>
           in (Inr (), l3))
      | Some h \<Rightarrow>
          if prev l node = None \<and> next l node = None then
            (let l1 = l\<lparr>next := (next l)(node := Some h)\<rparr>;
                 l2 = l1\<lparr>prev := (prev l1)(h := Some node)\<rparr>;
                 l3 = l2\<lparr>head := Some node\<rparr>
             in (Inr (), l3))
          else case next l node of
            None \<Rightarrow>
              (case prev l node of
                 None \<Rightarrow> (Inl AttributeError, l)
               | Some p \<Rightarrow>
                   (let l1 = l\<lparr>next := (next l)(p := None)\<rparr>;
                        l2 = l1\<lparr>tail := prev l1 node\<rparr>;
                        l3 = l2\<lparr>prev := (prev l2)(node := None),
                                next := (next l2)(node := None)\<rparr>
                    in make_node_head l3 node))
          | Some nx \<Rightarrow>
              (case prev l node of
                 None \<Rightarrow> (Inl AttributeError, l)
               | Some p \<Rightarrow>
                   (let l1 = l\<lparr>next := (next l)(p := Some nx)\<rparr>;
                        l2 = l1\<lparr>prev := (prev l1)(nx := Some p)\<rparr>;
                        l3 = l2\<lparr>prev := (prev l2)(node := None),
                                next := (next l2)(node := None)\<rparr>
                    in make_node_head l3 node)))"
  by pat_completeness auto

termination
  by (relation "measure (\<lambda>(l, node). if prev l node = None \<and> next l node = None then 0 else 1)")
     (auto split: option.splits)

declare make_node_head.simps [simp del]

text \<open>
  \<^verbatim>\<open>LL.key_to_remove\<close>. With \<^verbatim>\<open>head == tail\<close> it returns \<^verbatim>\<open>head\<close>, which is
  \<^verbatim>\<open>None\<close> for an empty list. Otherwise \<^verbatim>\<open>self.tail.prev.next = None\<close> dereferences
  \<^verbatim>\<open>tail\<close> and \<^verbatim>\<open>tail.prev\<close>.
\<close>

definition LL_key_to_remove :: "'k LL \<Rightarrow> (error + nat option) \<times> 'k LL" where
  "LL_key_to_remove l =
     (if head l = tail l then (Inr (head l), l\<lparr>head := None, tail := None\<rparr>)
      else case tail l of
        None \<Rightarrow> (Inl AttributeError, l)
      | Some t \<Rightarrow>
          (case prev l t of
             None \<Rightarrow> (Inl AttributeError, l)
           | Some p \<Rightarrow>
               (let l1 = l\<lparr>next := (next l)(p := None)\<rparr>;
                    l2 = l1\<lparr>tail := prev l1 t\<rparr>
                in (Inr (Some t), l2))))"


section \<open>The LRU policy\<close>

record 'k LRUKeyAccessPolicy =
  hashmap :: "('k \<times> nat) list"
  ll :: "'k LL"

definition LRUKeyAccessPolicy_init :: "'k LRUKeyAccessPolicy" where
  "LRUKeyAccessPolicy_init = \<lparr>hashmap = [], ll = LL_init\<rparr>"

definition key_accessed ::
  "'k LRUKeyAccessPolicy \<Rightarrow> 'k \<Rightarrow> (error + unit) \<times> 'k LRUKeyAccessPolicy" where
  "key_accessed p key =
     (case map_of (hashmap p) key of
        Some node \<Rightarrow>
          (case make_node_head (ll p) node of (r, l') \<Rightarrow> (r, p\<lparr>ll := l'\<rparr>))
      | None \<Rightarrow>
          (case Node (ll p) key of (node, l1) \<Rightarrow>
             (let p1 = p\<lparr>hashmap := AList.update key node (hashmap p), ll := l1\<rparr>
              in case make_node_head (ll p1) node of (r, l') \<Rightarrow> (r, p1\<lparr>ll := l'\<rparr>))))"

text \<open>
  \<^verbatim>\<open>LRUKeyAccessPolicy.key_to_remove\<close>: \<^verbatim>\<open>tail.val\<close> raises on \<^verbatim>\<open>None\<close>, and
  \<^verbatim>\<open>del self.hashmap[tail.val]\<close> raises when the index has no such key. An address
  without a \<^verbatim>\<open>val\<close> is one that no \<^verbatim>\<open>Node(key)\<close> has produced; Python has no such
  reference, and the model reads it as it reads \<^verbatim>\<open>None\<close>.
\<close>

definition key_to_remove ::
  "'k LRUKeyAccessPolicy \<Rightarrow> (error + 'k) \<times> 'k LRUKeyAccessPolicy" where
  "key_to_remove p =
     (case LL_key_to_remove (ll p) of
        (Inl e, l') \<Rightarrow> (Inl e, p\<lparr>ll := l'\<rparr>)
      | (Inr None, l') \<Rightarrow> (Inl AttributeError, p\<lparr>ll := l'\<rparr>)
      | (Inr (Some t), l') \<Rightarrow>
          (case val l' t of
             None \<Rightarrow> (Inl AttributeError, p\<lparr>ll := l'\<rparr>)
           | Some k \<Rightarrow>
               (case map_of (hashmap p) k of
                  None \<Rightarrow> (Inl KeyError, p\<lparr>ll := l'\<rparr>)
                | Some _ \<Rightarrow> (Inr k, p\<lparr>ll := l', hashmap := AList.delete k (hashmap p)\<rparr>))))"


section \<open>Cache\<close>

record ('k, 'v) Cache =
  storage :: "('k, 'v) HashMapBasedStorage"
  key_access_policy :: "'k LRUKeyAccessPolicy"

definition Cache_init :: "capacity \<Rightarrow> ('k, 'v) Cache" where
  "Cache_init cap =
     \<lparr>storage = HashMapBasedStorage_init cap, key_access_policy = LRUKeyAccessPolicy_init\<rparr>"

text \<open>The body of the \<^verbatim>\<open>try\<close> of \<^verbatim>\<open>Cache.put\<close>.\<close>

definition put_try :: "('k, 'v) Cache \<Rightarrow> 'k \<Rightarrow> 'v \<Rightarrow> (error + unit) \<times> ('k, 'v) Cache" where
  "put_try c key value =
     (case Storage_put (storage c) key value of
        (Inl e, s') \<Rightarrow> (Inl e, c\<lparr>storage := s'\<rparr>)
      | (Inr _, s') \<Rightarrow>
          (case key_accessed (key_access_policy c) key of
             (r, p') \<Rightarrow> (r, c\<lparr>storage := s', key_access_policy := p'\<rparr>)))"

text \<open>
  The first two statements of the \<^verbatim>\<open>except StorageFullException\<close> handler: ask the
  policy for a victim and remove it from the storage.
\<close>

definition evict :: "('k, 'v) Cache \<Rightarrow> (error + unit) \<times> ('k, 'v) Cache" where
  "evict c =
     (case key_to_remove (key_access_policy c) of
        (Inl e, p') \<Rightarrow> (Inl e, c\<lparr>key_access_policy := p'\<rparr>)
      | (Inr key_to_be_removed, p') \<Rightarrow>
          (case Storage_remove (storage c) key_to_be_removed of
             (r, s') \<Rightarrow> (r, c\<lparr>key_access_policy := p', storage := s'\<rparr>)))"

text \<open>
  Facts needed to see that the retry of \<^verbatim>\<open>Cache.put\<close> ends: the \<^verbatim>\<open>try\<close> body raises
  \<^verbatim>\<open>StorageFullException\<close> only from \<^verbatim>\<open>Storage.put\<close>, before the policy is touched,
  and every victim the policy hands out leaves its index.
\<close>

lemma make_node_head_not_full: "fst (make_node_head l node) \<noteq> Inl StorageFullException"
  by (induction l node rule: make_node_head.induct)
     (subst make_node_head.simps, simp add: Let_def split: option.splits)

lemma key_accessed_not_full: "fst (key_accessed p key) \<noteq> Inl StorageFullException"
proof (cases "map_of (hashmap p) key")
  case None
  obtain node l1 where n: "Node (ll p) key = (node, l1)" by (cases "Node (ll p) key")
  obtain r l' where m: "make_node_head l1 node = (r, l')" by (cases "make_node_head l1 node")
  from make_node_head_not_full [of l1 node] m have "r \<noteq> Inl StorageFullException" by simp
  with None n m show ?thesis by (simp add: key_accessed_def)
next
  case (Some node)
  obtain r l' where m: "make_node_head (ll p) node = (r, l')"
    by (cases "make_node_head (ll p) node")
  from make_node_head_not_full [of "ll p" node] m have "r \<noteq> Inl StorageFullException" by simp
  with Some m show ?thesis by (simp add: key_accessed_def)
qed

lemma put_try_full_policy:
  assumes "put_try c key value = (Inl StorageFullException, c1)"
  shows "key_access_policy c1 = key_access_policy c"
proof (cases "Storage_put (storage c) key value")
  case (Pair r s')
  show ?thesis
  proof (cases r)
    case (Inl e)
    with Pair assms show ?thesis by (auto simp: put_try_def)
  next
    case (Inr u)
    obtain r' p' where k: "key_accessed (key_access_policy c) key = (r', p')"
      by (cases "key_accessed (key_access_policy c) key")
    from key_accessed_not_full [of "key_access_policy c" key] k
    have "r' \<noteq> Inl StorageFullException" by simp
    with Pair Inr k assms show ?thesis by (auto simp: put_try_def)
  qed
qed

lemma length_delete_less: "map_of al k = Some v \<Longrightarrow> length (AList.delete k al) < length al"
  by (induction al) (auto simp: less_Suc_eq_le length_delete_le split: if_splits)

lemma key_to_remove_shrinks:
  "key_to_remove p = (Inr k, p') \<Longrightarrow> length (hashmap p') < length (hashmap p)"
  by (auto simp: key_to_remove_def length_delete_less
           split: prod.splits sum.splits option.splits)

lemma evict_shrinks:
  "evict c = (Inr u, c') \<Longrightarrow>
   length (hashmap (key_access_policy c')) < length (hashmap (key_access_policy c))"
  by (auto simp: evict_def split: prod.splits sum.splits dest: key_to_remove_shrinks)

text \<open>
  \<^verbatim>\<open>Cache.put\<close>: on \<^verbatim>\<open>StorageFullException\<close> evict, call \<^verbatim>\<open>self.put\<close> again and then
  report the access once more. Every other exception leaves the method.
\<close>

function Cache_put :: "('k, 'v) Cache \<Rightarrow> 'k \<Rightarrow> 'v \<Rightarrow> (error + unit) \<times> ('k, 'v) Cache" where
  "Cache_put c key value =
     (case put_try c key value of
        (Inl StorageFullException, c1) \<Rightarrow>
          (case evict c1 of
             (Inl e, c2) \<Rightarrow> (Inl e, c2)
           | (Inr _, c2) \<Rightarrow>
               (case Cache_put c2 key value of
                  (Inl e, c3) \<Rightarrow> (Inl e, c3)
                | (Inr _, c3) \<Rightarrow>
                    (case key_accessed (key_access_policy c3) key of
                       (r, p') \<Rightarrow> (r, c3\<lparr>key_access_policy := p'\<rparr>))))
      | (r, c1) \<Rightarrow> (r, c1))"
  by pat_completeness auto

termination
proof (relation "measure (\<lambda>(c, key, value). length (hashmap (key_access_policy c)))")
  show "wf (measure (\<lambda>(c, key, value). length (hashmap (key_access_policy c))))" by simp
next
  fix c :: "('k, 'v) Cache" and key :: 'k and "value" :: 'v
    and x1 c1 e x2 c2 u
  assume "(x1, c1) = put_try c key value" "x1 = Inl e" "e = StorageFullException"
    "(x2, c2) = evict c1" "x2 = Inr u"
  then have a: "put_try c key value = (Inl StorageFullException, c1)"
    and b: "evict c1 = (Inr u, c2)" by simp_all
  from put_try_full_policy [OF a] evict_shrinks [OF b]
  show "((c2, key, value), (c, key, value))
        \<in> measure (\<lambda>(c, key, value). length (hashmap (key_access_policy c)))"
    by simp
qed

declare Cache_put.simps [simp del]

definition Cache_get :: "('k, 'v) Cache \<Rightarrow> 'k \<Rightarrow> error + 'v" where
  "Cache_get c key = Storage_get (storage c) key"


section \<open>Cache levels\<close>

text \<open>
  A level owns its \<^verbatim>\<open>Cache\<close> and refers to the next level, or to \<^verbatim>\<open>None\<close>. The chain is
  a value here: it is finite, and no two levels share a cache. The \<^verbatim>\<open>print\<close> of
  \<^verbatim>\<open>CacheLevel.get\<close> and the clock readings are left out.
\<close>

datatype ('k, 'v) CacheLevel =
  CacheLevel (name: string) (cache_provider: "('k, 'v pyval) Cache")
             (next_level: "('k, 'v) CacheLevel option")

text \<open>
  \<^verbatim>\<open>CacheLevel.get\<close>. Only the \<^verbatim>\<open>KeyError\<close> of the local lookup is caught. In the
  handler \<^verbatim>\<open>value\<close> is what \<^verbatim>\<open>self.next.get(key)\<close> returns, the response object of
  the next level; it is stored locally and wrapped again.
\<close>

fun CacheLevel_get ::
  "('k, 'v) CacheLevel \<Rightarrow> 'k \<Rightarrow> (error + 'v pyval) \<times> ('k, 'v) CacheLevel" where
  "CacheLevel_get (CacheLevel nm c nxt) key =
     (case Cache_get c key of
        Inr value \<Rightarrow> (Inr (ReadResponse value), CacheLevel nm c nxt)
      | Inl KeyError \<Rightarrow>
          (case nxt of
             None \<Rightarrow> (Inl KeyError, CacheLevel nm c nxt)
           | Some n \<Rightarrow>
               (case CacheLevel_get n key of
                  (Inl e, n') \<Rightarrow> (Inl e, CacheLevel nm c (Some n'))
                | (Inr value, n') \<Rightarrow>
                    (case Cache_put c key value of
                       (Inl e, c') \<Rightarrow> (Inl e, CacheLevel nm c' (Some n'))
                     | (Inr _, c') \<Rightarrow>
                         (Inr (ReadResponse value), CacheLevel nm c' (Some n')))))
      | Inl e \<Rightarrow> (Inl e, CacheLevel nm c nxt))"

fun CacheLevel_put ::
  "('k, 'v) CacheLevel \<Rightarrow> 'k \<Rightarrow> 'v pyval \<Rightarrow> (error + write_response) \<times> ('k, 'v) CacheLevel" where
  "CacheLevel_put (CacheLevel nm c nxt) key value =
     (case Cache_put c key value of
        (Inl e, c') \<Rightarrow> (Inl e, CacheLevel nm c' nxt)
      | (Inr _, c') \<Rightarrow>
          (case nxt of
             None \<Rightarrow> (Inr WriteResponse, CacheLevel nm c' None)
           | Some n \<Rightarrow>
               (case CacheLevel_put n key value of
                  (Inl e, n') \<Rightarrow> (Inl e, CacheLevel nm c' (Some n'))
                | (Inr _, n') \<Rightarrow> (Inr WriteResponse, CacheLevel nm c' (Some n')))))"


section \<open>The multilevel cache\<close>

text \<open>
  \<^verbatim>\<open>deque(maxlen=last_num_stat)\<close>: \<^verbatim>\<open>appendleft\<close> puts the new entry first and drops
  what no longer fits at the other end. \<^verbatim>\<open>last_num_stat\<close> is a natural number: a
  negative bound is refused by \<^verbatim>\<open>deque\<close> when the cache is constructed.
\<close>

record ('k, 'v) MultilevelCache =
  front_cache_level :: "('k, 'v) CacheLevel option"
  last_num_stat :: nat
  get_queue :: "'v pyval list"
  put_queue :: "write_response list"

definition MultilevelCache_init ::
  "('k, 'v) CacheLevel option \<Rightarrow> nat \<Rightarrow> ('k, 'v) MultilevelCache" where
  "MultilevelCache_init front n =
     \<lparr>front_cache_level = front, last_num_stat = n, get_queue = [], put_queue = []\<rparr>"

definition appendleft :: "nat \<Rightarrow> 'a list \<Rightarrow> 'a \<Rightarrow> 'a list" where
  "appendleft maxlen q x = take maxlen (x # q)"

text \<open>The \<^verbatim>\<open>while(current.next)\<close> walk to the last level.\<close>

fun append_level :: "('k, 'v) CacheLevel \<Rightarrow> ('k, 'v) CacheLevel \<Rightarrow> ('k, 'v) CacheLevel" where
  "append_level (CacheLevel nm c None) cache_level = CacheLevel nm c (Some cache_level)"
| "append_level (CacheLevel nm c (Some n)) cache_level =
     CacheLevel nm c (Some (append_level n cache_level))"

definition add_cache_level ::
  "('k, 'v) MultilevelCache \<Rightarrow> ('k, 'v) CacheLevel \<Rightarrow> ('k, 'v) MultilevelCache" where
  "add_cache_level m cache_level =
     (case front_cache_level m of
        None \<Rightarrow> m\<lparr>front_cache_level := Some cache_level\<rparr>
      | Some front \<Rightarrow> m\<lparr>front_cache_level := Some (append_level front cache_level)\<rparr>)"

text \<open>
  \<^verbatim>\<open>MultilevelCache.get\<close>: \<^verbatim>\<open>self.front_cache_level.get\<close> on \<^verbatim>\<open>None\<close> is an
  \<^verbatim>\<open>AttributeError\<close>. The value returned is the \<^verbatim>\<open>value\<close> attribute of the response.
\<close>

definition MultilevelCache_get ::
  "('k, 'v) MultilevelCache \<Rightarrow> 'k \<Rightarrow> (error + 'v pyval) \<times> ('k, 'v) MultilevelCache" where
  "MultilevelCache_get m key =
     (case front_cache_level m of
        None \<Rightarrow> (Inl AttributeError, m)
      | Some front \<Rightarrow>
          (case CacheLevel_get front key of
             (Inl e, front') \<Rightarrow> (Inl e, m\<lparr>front_cache_level := Some front'\<rparr>)
           | (Inr read_response, front') \<Rightarrow>
               (let m1 = m\<lparr>front_cache_level := Some front',
                            get_queue := appendleft (last_num_stat m) (get_queue m) read_response\<rparr>
                in case read_response of
                     ReadResponse value \<Rightarrow> (Inr value, m1)
                   | Raw _ \<Rightarrow> (Inl AttributeError, m1))))"

definition MultilevelCache_put ::
  "('k, 'v) MultilevelCache \<Rightarrow> 'k \<Rightarrow> 'v pyval \<Rightarrow> (error + unit) \<times> ('k, 'v) MultilevelCache" where
  "MultilevelCache_put m key value =
     (case front_cache_level m of
        None \<Rightarrow> (Inl AttributeError, m)
      | Some front \<Rightarrow>
          (case CacheLevel_put front key value of
             (Inl e, front') \<Rightarrow> (Inl e, m\<lparr>front_cache_level := Some front'\<rparr>)
           | (Inr write_response, front') \<Rightarrow>
               (Inr (), m\<lparr>front_cache_level := Some front',
                           put_queue := appendleft (last_num_stat m) (put_queue m) write_response\<rparr>)))"


section \<open>Runs and predicates of the properties\<close>

text \<open>A level holds a key when the dictionary of its own storage has it.\<close>

definition holds :: "('k, 'v) CacheLevel \<Rightarrow> 'k \<Rightarrow> bool" where
  "holds lvl key = (key \<in> fst ` set (db (storage (cache_provider lvl))))"

fun no_level_holds :: "('k, 'v) CacheLevel \<Rightarrow> 'k \<Rightarrow> bool" where
  "no_level_holds (CacheLevel nm c nxt) key =
     (\<not> holds (CacheLevel nm c nxt) key \<and>
      (case nxt of None \<Rightarrow> True | Some n \<Rightarrow> no_level_holds n key))"

text \<open>Each level of the chain, asked through its own \<^verbatim>\<open>Cache.get\<close>, returns the value.\<close>

fun every_level_holds :: "('k, 'v) CacheLevel \<Rightarrow> 'k \<Rightarrow> 'v pyval \<Rightarrow> bool" where
  "every_level_holds (CacheLevel nm c nxt) key value =
     (Cache_get c key = Inr value \<and>
      (case nxt of None \<Rightarrow> True | Some n \<Rightarrow> every_level_holds n key value))"

text \<open>A run of \<^verbatim>\<open>Cache.put\<close> calls, in order; the first exception ends it.\<close>

fun Cache_puts :: "('k, 'v) Cache \<Rightarrow> ('k \<times> 'v) list \<Rightarrow> (error + unit) \<times> ('k, 'v) Cache" where
  "Cache_puts c [] = (Inr (), c)"
| "Cache_puts c ((key, value) # ops) =
     (case Cache_put c key value of
        (Inl e, c') \<Rightarrow> (Inl e, c')
      | (Inr _, c') \<Rightarrow> Cache_puts c' ops)"

text \<open>
  What keeps \<^verbatim>\<open>key_accessed\<close> from raising as long as nothing is evicted: every record of
  the index was allocated before \<^verbatim>\<open>fresh\<close>, and is the head or has a predecessor. Then
  \<^verbatim>\<open>make_node_head\<close> never reaches \<^verbatim>\<open>prev.next = next\<close> with \<^verbatim>\<open>prev\<close> being \<^verbatim>\<open>None\<close>.
\<close>

definition tracked_ok :: "'k LRUKeyAccessPolicy \<Rightarrow> bool" where
  "tracked_ok p \<longleftrightarrow>
     (\<forall>n \<in> snd ` set (hashmap p).
        n < fresh (ll p) \<and> (head (ll p) = Some n \<or> prev (ll p) n \<noteq> None)) \<and>
     (\<forall>h. head (ll p) = Some h \<longrightarrow> h < fresh (ll p))"


section \<open>The chain of the demo driver\<close>

text \<open>
  The three levels that \<^verbatim>\<open>__main__\<close> builds, \<^verbatim>\<open>L1\<close>, \<^verbatim>\<open>L2\<close> and \<^verbatim>\<open>L3\<close>, each with a
  storage of capacity 5 and an LRU policy, added to an empty multilevel cache in that
  order. The concrete runs below start from it.
\<close>

definition new_level :: "string \<Rightarrow> int \<Rightarrow> (string, nat) CacheLevel" where
  "new_level nm cap = CacheLevel nm (Cache_init (Finite cap)) None"

definition mlcache :: "(string, nat) MultilevelCache" where
  "mlcache =
     add_cache_level
       (add_cache_level
          (add_cache_level (MultilevelCache_init None 5) (new_level ''L1'' 5))
          (new_level ''L2'' 5))
       (new_level ''L3'' 5)"

lemma mlcache_front:
  "front_cache_level mlcache =
     Some (CacheLevel ''L1'' (Cache_init (Finite 5))
       (Some (CacheLevel ''L2'' (Cache_init (Finite 5))
         (Some (CacheLevel ''L3'' (Cache_init (Finite 5)) None)))))"
  by (simp add: mlcache_def add_cache_level_def MultilevelCache_init_def new_level_def)


section \<open>Misses and failures of the multilevel cache\<close>

lemma Cache_get_absent:
  "key \<notin> fst ` set (db (storage c)) \<Longrightarrow> Cache_get c key = Inl KeyError"
  using map_of_eq_None_iff [of "db (storage c)" key]
  by (simp add: Cache_get_def Storage_get_def)

lemma CacheLevel_get_terminal_miss:
  "no_level_holds lvl key \<Longrightarrow> CacheLevel_get lvl key = (Inl KeyError, lvl)"
proof (induction lvl key rule: CacheLevel_get.induct)
  case (1 nm c nxt key)
  then show ?case
    by (cases nxt) (simp_all add: holds_def Cache_get_absent)
qed

lemma mlcache_holds_nothing:
  "no_level_holds
     (CacheLevel ''L1'' (Cache_init (Finite 5))
       (Some (CacheLevel ''L2'' (Cache_init (Finite 5))
         (Some (CacheLevel ''L3'' (Cache_init (Finite 5)) None))))) ''nope''"
  by (simp add: holds_def Cache_init_def HashMapBasedStorage_init_def)

text \<open>
  C7. On a chain in which no level holds the key, \<^verbatim>\<open>MultilevelCache.get\<close> raises
  \<^verbatim>\<open>KeyError\<close>, the specification's NotFound, and no other exception: the miss of the
  last level passes unchanged through every level before it and through the
  multilevel cache, and nothing in the chain or in the history queues has changed.
\<close>

theorem terminal_miss_is_KeyError:
  assumes "front_cache_level m = Some front" and "no_level_holds front key"
  shows "MultilevelCache_get m key = (Inl KeyError, m)"
  using assms by (simp add: MultilevelCache_get_def CacheLevel_get_terminal_miss)

theorem terminal_miss_is_KeyError_witness:
  "front_cache_level mlcache \<noteq> None \<and>
   no_level_holds (the (front_cache_level mlcache)) ''nope'' \<and>
   MultilevelCache_get mlcache ''nope'' = (Inl KeyError, mlcache)"
  using terminal_miss_is_KeyError [OF mlcache_front mlcache_holds_nothing]
        mlcache_front mlcache_holds_nothing
  by simp

text \<open>
  C9. A multilevel cache whose front level is absent (no \<^verbatim>\<open>add_cache_level\<close> yet, none
  given to the constructor) fails in both \<^verbatim>\<open>get\<close> and \<^verbatim>\<open>put\<close> with the
  \<^verbatim>\<open>AttributeError\<close> of calling a method on \<^verbatim>\<open>None\<close>, not with \<^verbatim>\<open>KeyError\<close> or
  \<^verbatim>\<open>StorageFullException\<close>, and is left as it was.
\<close>

theorem no_front_level_AttributeError:
  assumes "front_cache_level m = None"
  shows "MultilevelCache_get m key = (Inl AttributeError, m) \<and>
         MultilevelCache_put m key value = (Inl AttributeError, m)"
  using assms by (simp add: MultilevelCache_get_def MultilevelCache_put_def)

theorem no_front_level_AttributeError_witness:
  "front_cache_level (MultilevelCache_init None 5 :: (string, nat) MultilevelCache) = None \<and>
   fst (MultilevelCache_get (MultilevelCache_init None 5 :: (string, nat) MultilevelCache) ''a'')
     = Inl AttributeError \<and>
   fst (MultilevelCache_put (MultilevelCache_init None 5 :: (string, nat) MultilevelCache)
          ''a'' (Raw 97))
     = Inl AttributeError"
  using no_front_level_AttributeError
          [of "MultilevelCache_init None 5 :: (string, nat) MultilevelCache" "''a''" "Raw 97"]
  by (simp add: MultilevelCache_init_def)

text \<open>
  C10. When the \<^verbatim>\<open>get\<close> of the front level raises, \<^verbatim>\<open>MultilevelCache.get\<close> raises the
  same exception and appends nothing: the read history and the write history are what
  they were before the call, so a failed read never leaves a record.
\<close>

theorem failed_get_leaves_queues:
  assumes "front_cache_level m = Some front" and "fst (CacheLevel_get front key) = Inl e"
  shows "fst (MultilevelCache_get m key) = Inl e \<and>
         get_queue (snd (MultilevelCache_get m key)) = get_queue m \<and>
         put_queue (snd (MultilevelCache_get m key)) = put_queue m"
  using assms by (cases "CacheLevel_get front key") (simp add: MultilevelCache_get_def)

theorem failed_get_leaves_queues_witness:
  "front_cache_level mlcache \<noteq> None \<and>
   fst (CacheLevel_get (the (front_cache_level mlcache)) ''nope'') = Inl KeyError \<and>
   fst (MultilevelCache_get mlcache ''nope'') = Inl KeyError \<and>
   get_queue (snd (MultilevelCache_get mlcache ''nope'')) = get_queue mlcache \<and>
   put_queue (snd (MultilevelCache_get mlcache ''nope'')) = put_queue mlcache"
proof -
  have miss:
    "fst (CacheLevel_get
            (CacheLevel ''L1'' (Cache_init (Finite 5))
              (Some (CacheLevel ''L2'' (Cache_init (Finite 5))
                (Some (CacheLevel ''L3'' (Cache_init (Finite 5)) None))))) ''nope'')
       = Inl KeyError"
    by (simp only: CacheLevel_get_terminal_miss [OF mlcache_holds_nothing] fst_conv)
  from failed_get_leaves_queues [OF mlcache_front miss] mlcache_front miss
  show ?thesis by simp
qed


section \<open>The storage contract\<close>

text \<open>
  C4, as the specification has it: \<^verbatim>\<open>put\<close> fails with StorageFull only when the key
  is new, and overwriting a key never fails on capacity grounds. The guard of
  \<^verbatim>\<open>HashMapBasedStorage.put\<close> compares \<^verbatim>\<open>len(self.db)\<close> with the capacity and does not
  look at the key: a storage of capacity 1 that holds \<^verbatim>\<open>k\<close> refuses to overwrite \<^verbatim>\<open>k\<close>.
\<close>

theorem overwrite_when_full_counterexample:
  "(let s = snd (Storage_put (HashMapBasedStorage_init (Finite 1)) ''k'' (1::nat))
    in Storage_get s ''k'' = Inr 1 \<and> fst (Storage_put s ''k'' 2) = Inl StorageFullException)"
  by code_simp

text \<open>
  C4, amended. \<^verbatim>\<open>Storage.put\<close> fails with \<^verbatim>\<open>StorageFullException\<close> exactly when the
  number of keys stored equals the capacity, whether or not the key is already there;
  in every other state it succeeds, keeps the capacity, and the dictionary afterwards
  is the old one with the key bound to the value (inserted or overwritten).
\<close>

theorem Storage_put_full_iff:
  "(fst (Storage_put s key value) = Inl StorageFullException
      \<longleftrightarrow> capacity s = Finite (int (len (db s)))) \<and>
   (capacity s \<noteq> Finite (int (len (db s))) \<longrightarrow>
      fst (Storage_put s key value) = Inr () \<and>
      capacity (snd (Storage_put s key value)) = capacity s \<and>
      map_of (db (snd (Storage_put s key value))) = (map_of (db s))(key \<mapsto> value))"
  by (auto simp: Storage_put_def update_conv')

theorem Storage_put_full_iff_witness:
  "capacity (HashMapBasedStorage_init (Finite 1) :: (string, nat) HashMapBasedStorage)
     \<noteq> Finite (int (len (db (HashMapBasedStorage_init (Finite 1)
                                 :: (string, nat) HashMapBasedStorage)))) \<and>
   fst (Storage_put (HashMapBasedStorage_init (Finite 1)) ''k'' (1::nat)) = Inr () \<and>
   map_of (db (snd (Storage_put (HashMapBasedStorage_init (Finite 1)) ''k'' (1::nat)))) ''k''
     = Some 1"
  using Storage_put_full_iff
          [of "HashMapBasedStorage_init (Finite 1) :: (string, nat) HashMapBasedStorage"
              "''k''" 1]
  by (simp add: HashMapBasedStorage_init_def len_def)


section \<open>The recency list in closed form\<close>

text \<open>
  \<^const>\<open>make_node_head\<close> calls itself at most once, on a node it has just detached. Its
  six paths, each with the list it leaves: the node is the head; the list is empty;
  the node is detached; the node has a successor and no predecessor (the
  \<^verbatim>\<open>AttributeError\<close>); the node has a predecessor and no successor; the node has both.
\<close>

lemma make_node_head_is_head: "head l = Some node \<Longrightarrow> make_node_head l node = (Inr (), l)"
  by (subst make_node_head.simps) simp

lemma make_node_head_empty:
  "head l = None \<Longrightarrow>
   make_node_head l node =
     (Inr (), l\<lparr>head := Some node, tail := Some node,
                next := (next l)(node := Some node), prev := (prev l)(node := Some node)\<rparr>)"
  by (subst make_node_head.simps) (simp add: Let_def)

lemma make_node_head_detached:
  "head l = Some h \<Longrightarrow> node \<noteq> h \<Longrightarrow> prev l node = None \<Longrightarrow> next l node = None \<Longrightarrow>
   make_node_head l node =
     (Inr (), l\<lparr>next := (next l)(node := Some h), prev := (prev l)(h := Some node),
                head := Some node\<rparr>)"
  by (subst make_node_head.simps) (simp add: Let_def)

lemma make_node_head_error:
  "head l = Some h \<Longrightarrow> node \<noteq> h \<Longrightarrow> prev l node = None \<Longrightarrow> next l node = Some nx \<Longrightarrow>
   make_node_head l node = (Inl AttributeError, l)"
  by (subst make_node_head.simps) (simp add: Let_def)

lemma make_node_head_tail:
  assumes "head l = Some h" "node \<noteq> h" "prev l node = Some p" "next l node = None"
  shows "make_node_head l node =
     (Inr (), l\<lparr>next := (next l)(p := None, node := Some h), tail := Some p,
                prev := (prev l)(node := None, h := Some node), head := Some node\<rparr>)"
  by (subst make_node_head.simps, simp add: assms Let_def,
      subst make_node_head.simps, simp add: assms Let_def)

lemma make_node_head_interior:
  assumes "head l = Some h" "node \<noteq> h" "prev l node = Some p" "next l node = Some nx"
  shows "make_node_head l node =
     (Inr (), l\<lparr>next := (next l)(p := Some nx, node := Some h),
                prev := (prev l)(nx := Some p, node := None, h := Some node),
                head := Some node\<rparr>)"
  by (subst make_node_head.simps, simp add: assms Let_def,
      subst make_node_head.simps, simp add: assms Let_def)


lemma make_node_head_cases [case_names is_head empty detached error tail interior]:
  obtains "head l = Some node"
  | "head l = None"
  | h where "head l = Some h" "node \<noteq> h" "prev l node = None" "next l node = None"
  | h nx where "head l = Some h" "node \<noteq> h" "prev l node = None" "next l node = Some nx"
  | h p where "head l = Some h" "node \<noteq> h" "prev l node = Some p" "next l node = None"
  | h p nx where "head l = Some h" "node \<noteq> h" "prev l node = Some p" "next l node = Some nx"
  by (cases "head l"; cases "prev l node"; cases "next l node") auto

lemma make_node_head_head:
  assumes "make_node_head l node = (Inr u, l')"
  shows "head l' = Some node"
  using assms
  by (cases l node rule: make_node_head_cases)
     (auto simp: make_node_head_is_head make_node_head_empty make_node_head_detached make_node_head_error make_node_head_tail make_node_head_interior)

lemma key_accessed_head:
  assumes "key_accessed p key = (Inr u, p')"
  shows "head (ll p') \<noteq> None \<and> map_of (hashmap p') key = head (ll p')"
proof (cases "map_of (hashmap p) key")
  case None
  obtain r l' where m: "make_node_head (snd (Node (ll p) key)) (fresh (ll p)) = (r, l')"
    by force
  with None assms have "r = Inr u" "hashmap p' = AList.update key (fresh (ll p)) (hashmap p)"
    "ll p' = l'"
    by (auto simp: key_accessed_def Node_def Let_def)
  with m make_node_head_head [of _ _ u l'] show ?thesis
    by (simp add: update_conv')
next
  case (Some node)
  obtain r l' where m: "make_node_head (ll p) node = (r, l')" by force
  with Some assms have "r = Inr u" "hashmap p' = hashmap p" "ll p' = l'"
    by (auto simp: key_accessed_def)
  with m Some make_node_head_head [of _ _ u l'] show ?thesis by simp
qed

lemma Cache_put_not_full:
  "put_try c key value = (r, c1) \<Longrightarrow> r \<noteq> Inl StorageFullException \<Longrightarrow>
   Cache_put c key value = (r, c1)"
  by (subst Cache_put.simps) (simp split: sum.splits error.splits)

lemma Cache_put_full:
  "put_try c key value = (Inl StorageFullException, c1) \<Longrightarrow>
   Cache_put c key value =
     (case evict c1 of
        (Inl e, c2) \<Rightarrow> (Inl e, c2)
      | (Inr _, c2) \<Rightarrow>
          (case Cache_put c2 key value of
             (Inl e, c3) \<Rightarrow> (Inl e, c3)
           | (Inr _, c3) \<Rightarrow>
               (case key_accessed (key_access_policy c3) key of
                  (r, p') \<Rightarrow> (r, c3\<lparr>key_access_policy := p'\<rparr>))))"
  by (subst Cache_put.simps) simp

lemma Cache_put_head:
  fixes c :: "('k, 'v) Cache"
  assumes "Cache_put c key value = (Inr u, c')"
  shows "head (ll (key_access_policy c')) \<noteq> None \<and>
         map_of (hashmap (key_access_policy c')) key = head (ll (key_access_policy c'))"
proof -
  obtain r c1 where pt: "put_try c key value = (r, c1)" by force
  show ?thesis
  proof (cases "r = Inl StorageFullException")
    case False
    from Cache_put_not_full [OF pt False] assms have "put_try c key value = (Inr u, c')"
      using pt by simp
    then obtain p' where "key_accessed (key_access_policy c) key = (Inr u, p')"
      "key_access_policy c' = p'"
      by (auto simp: put_try_def split: prod.splits sum.splits)
    with key_accessed_head show ?thesis by metis
  next
    case True
    with pt have "put_try c key value = (Inl StorageFullException, c1)" by simp
    from Cache_put_full [OF this] assms
    have "\<exists>(c3 :: ('k, 'v) Cache) p'.
            key_accessed (key_access_policy c3) key = (Inr u, p') \<and> key_access_policy c' = p'"
      by (auto split: prod.splits sum.splits)
    with key_accessed_head show ?thesis by metis
  qed
qed



section \<open>Recency\<close>

text \<open>
  C2, as the specification has it: an access by \<^verbatim>\<open>get\<close> or \<^verbatim>\<open>put\<close> makes the key the
  most recently used one, and an overflow never evicts a key accessed after another
  key that stays. \<^verbatim>\<open>Cache.get\<close> only reads the storage; the policy never hears of it.
  With capacity 2, after \<^verbatim>\<open>put a\<close>, \<^verbatim>\<open>put b\<close> and a successful \<^verbatim>\<open>get a\<close>, the
  overflowing \<^verbatim>\<open>put c\<close> evicts \<^verbatim>\<open>a\<close>, read after \<^verbatim>\<open>b\<close> was written, and keeps
  \<^verbatim>\<open>b\<close>.
\<close>

theorem get_does_not_promote_counterexample:
  "(let c0 = Cache_init (Finite 2) :: (string, nat) Cache;
        c1 = snd (Cache_put c0 ''a'' 1);
        c2 = snd (Cache_put c1 ''b'' 2);
        c3 = snd (Cache_put c2 ''c'' 3)
    in Cache_get c2 ''a'' = Inr 1 \<and> fst (Cache_put c2 ''c'' 3) = Inr () \<and>
       Cache_get c3 ''a'' = Inl KeyError \<and> Cache_get c3 ''b'' = Inr 2)"
  by code_simp

text \<open>
  C2, amended. Every \<^verbatim>\<open>key_accessed(k)\<close> that returns leaves the record that the index
  holds for \<^verbatim>\<open>k\<close> at the head of the recency list, the most-recently-used end, and so
  does every \<^verbatim>\<open>Cache.put(k, v)\<close> that returns. \<^verbatim>\<open>Cache.get\<close> reports no access
  (\<^const>\<open>Cache_get\<close> reads the storage and has no policy to change). Which key a later
  eviction picks is not part of this statement.
\<close>

theorem access_moves_key_to_head:
  fixes p :: "'k LRUKeyAccessPolicy" and c :: "('k, 'v) Cache"
  shows
  "(fst (key_accessed p key) = Inr () \<longrightarrow>
      head (ll (snd (key_accessed p key))) \<noteq> None \<and>
      map_of (hashmap (snd (key_accessed p key))) key = head (ll (snd (key_accessed p key)))) \<and>
   (fst (Cache_put c key value) = Inr () \<longrightarrow>
      head (ll (key_access_policy (snd (Cache_put c key value)))) \<noteq> None \<and>
      map_of (hashmap (key_access_policy (snd (Cache_put c key value)))) key
        = head (ll (key_access_policy (snd (Cache_put c key value)))))"
  using key_accessed_head [of p key "()" "snd (key_accessed p key)"]
        Cache_put_head [of c key "value" "()" "snd (Cache_put c key value)"]
  by (metis prod.collapse)

theorem access_moves_key_to_head_witness:
  "fst (key_accessed (LRUKeyAccessPolicy_init :: string LRUKeyAccessPolicy) ''a'') = Inr () \<and>
   head (ll (snd (key_accessed (LRUKeyAccessPolicy_init :: string LRUKeyAccessPolicy) ''a'')))
     = Some 0 \<and>
   map_of (hashmap (snd (key_accessed (LRUKeyAccessPolicy_init :: string LRUKeyAccessPolicy)
                           ''a''))) ''a''
     = Some 0 \<and>
   fst (Cache_put (Cache_init (Finite 2) :: (string, nat) Cache) ''a'' 1) = Inr () \<and>
   map_of (hashmap (key_access_policy
             (snd (Cache_put (Cache_init (Finite 2) :: (string, nat) Cache) ''a'' 1)))) ''a''
     = head (ll (key_access_policy
             (snd (Cache_put (Cache_init (Finite 2) :: (string, nat) Cache) ''a'' 1))))"
proof -
  have a: "fst (key_accessed (LRUKeyAccessPolicy_init :: string LRUKeyAccessPolicy) ''a'')
             = Inr ()"
    by code_simp
  have b: "head (ll (snd (key_accessed (LRUKeyAccessPolicy_init :: string LRUKeyAccessPolicy)
                            ''a''))) = Some 0"
    by code_simp
  have c: "fst (Cache_put (Cache_init (Finite 2) :: (string, nat) Cache) ''a'' 1) = Inr ()"
    by code_simp
  from access_moves_key_to_head
         [of "LRUKeyAccessPolicy_init :: string LRUKeyAccessPolicy" "''a''"
             "Cache_init (Finite 2) :: (string, nat) Cache" 1]
       a b c
  show ?thesis by simp
qed


section \<open>The victim\<close>

text \<open>
  C8, as the specification has it: a policy that tracks no keys fails with PolicyEmpty.
  The module declares no such exception and \<^verbatim>\<open>key_to_remove\<close> makes no emptiness test:
  on a new policy \<^verbatim>\<open>LL.key_to_remove\<close> returns \<^verbatim>\<open>None\<close>, and \<^verbatim>\<open>tail.val\<close> raises
  \<^verbatim>\<open>AttributeError\<close>.
\<close>

theorem key_to_remove_empty_counterexample:
  "fst (key_to_remove (LRUKeyAccessPolicy_init :: string LRUKeyAccessPolicy))
     = Inl AttributeError"
  by code_simp

lemma LL_key_to_remove_empty:
  "head l = None \<Longrightarrow> tail l = None \<Longrightarrow> LL_key_to_remove l = (Inr None, l)"
  by (simp add: LL_key_to_remove_def)

lemma key_to_remove_empty:
  "head (ll p) = None \<Longrightarrow> tail (ll p) = None \<Longrightarrow> key_to_remove p = (Inl AttributeError, p)"
  by (simp add: key_to_remove_def LL_key_to_remove_empty)

lemma key_to_remove_success:
  assumes "key_to_remove p = (Inr k, p')"
  shows "k \<in> fst ` set (hashmap p) \<and> hashmap p' = AList.delete k (hashmap p)"
  using assms
  by (auto simp: key_to_remove_def split: prod.splits sum.splits option.splits
           dest: map_of_SomeD intro: rev_image_eqI)

text \<open>
  C8, amended. When the recency list is empty (no head and no tail, as in a policy that
  has not heard of any key), \<^verbatim>\<open>key_to_remove()\<close> fails with the \<^verbatim>\<open>AttributeError\<close> of
  reading \<^verbatim>\<open>val\<close> from \<^verbatim>\<open>None\<close> and changes nothing. When it returns a key, that key
  was in the index of the policy, and the index afterwards is the old one without that
  key. The operation has the policy alone as its state: no storage is touched. Whether
  the key returned is the least recently used one is not part of this statement.
\<close>

theorem key_to_remove_contract:
  "(head (ll p) = None \<and> tail (ll p) = None \<longrightarrow>
      key_to_remove p = (Inl AttributeError, p)) \<and>
   (fst (key_to_remove p) = Inr k \<longrightarrow>
      k \<in> fst ` set (hashmap p) \<and>
      hashmap (snd (key_to_remove p)) = AList.delete k (hashmap p) \<and>
      k \<notin> fst ` set (hashmap (snd (key_to_remove p))))"
  using key_to_remove_empty [of p] key_to_remove_success [of p k "snd (key_to_remove p)"]
  by (metis delete_notin_dom prod.collapse)

theorem key_to_remove_contract_witness:
  "head (ll (LRUKeyAccessPolicy_init :: string LRUKeyAccessPolicy)) = None \<and>
   tail (ll (LRUKeyAccessPolicy_init :: string LRUKeyAccessPolicy)) = None \<and>
   key_to_remove (LRUKeyAccessPolicy_init :: string LRUKeyAccessPolicy)
     = (Inl AttributeError, LRUKeyAccessPolicy_init) \<and>
   fst (key_to_remove (snd (key_accessed LRUKeyAccessPolicy_init ''a''))) = Inr ''a'' \<and>
   hashmap (snd (key_to_remove (snd (key_accessed LRUKeyAccessPolicy_init ''a'')))) = []"
proof -
  have a: "head (ll (LRUKeyAccessPolicy_init :: string LRUKeyAccessPolicy)) = None"
          "tail (ll (LRUKeyAccessPolicy_init :: string LRUKeyAccessPolicy)) = None"
    by (simp_all add: LRUKeyAccessPolicy_init_def LL_init_def)
  have b: "fst (key_to_remove (snd (key_accessed LRUKeyAccessPolicy_init ''a''))) = Inr ''a''"
    by code_simp
  have c: "hashmap (snd (key_accessed LRUKeyAccessPolicy_init ''a'')) = [(''a'', 0)]"
    by code_simp
  from key_to_remove_contract
         [of "LRUKeyAccessPolicy_init :: string LRUKeyAccessPolicy" "''a''"]
       key_to_remove_contract [of "snd (key_accessed LRUKeyAccessPolicy_init ''a'')" "''a''"]
       a b c
  show ?thesis by simp
qed


section \<open>Write-through\<close>

lemma put_try_stores:
  "put_try c key value = (Inr u, c') \<Longrightarrow> map_of (db (storage c')) key = Some value"
  by (auto simp: put_try_def Storage_put_def update_conv' split: prod.splits sum.splits if_splits)

text \<open>
  A \<^verbatim>\<open>Cache.put\<close> that returns has bound the key to the value in its storage, however
  many evictions it went through: by induction along its retries.
\<close>

lemma Cache_put_stores:
  fixes c :: "('k, 'v) Cache"
  assumes "Cache_put c key value = (Inr u, c')"
  shows "map_of (db (storage c')) key = Some value"
  using assms
proof (induction c key "value" arbitrary: c' rule: Cache_put.induct)
  case (1 c key "value")
  obtain r c1 where pt: "put_try c key value = (r, c1)" by force
  show ?case
  proof (cases "r = Inl StorageFullException")
    case False
    from Cache_put_not_full [OF pt False] "1.prems" pt
    have "put_try c key value = (Inr u, c')" by simp
    then show ?thesis by (rule put_try_stores)
  next
    case True
    with pt have full: "put_try c key value = (Inl StorageFullException, c1)" by simp
    obtain r2 c2 where ev: "evict c1 = (r2, c2)" by force
    obtain r3 c3 where rec: "Cache_put c2 key value = (r3, c3)" by force
    from Cache_put_full [OF full] "1.prems" ev rec
    have ok: "r2 = Inr ()" "r3 = Inr ()" and st: "storage c' = storage c3"
      by (auto split: prod.splits sum.splits)
    from "1.IH" [of "Inl StorageFullException" c1 StorageFullException r2 c2 "()" c3]
         pt True ev ok rec
    have "map_of (db (storage c3)) key = Some value" by simp
    with st show ?thesis by simp
  qed
qed

lemma Cache_put_get:
  "Cache_put c key value = (Inr u, c') \<Longrightarrow> Cache_get c' key = Inr value"
  by (simp add: Cache_get_def Storage_get_def Cache_put_stores)

lemma write_response_eq: "(w :: write_response) = w'"
  by (cases w; cases w') simp

lemma CacheLevel_put_write_through:
  "CacheLevel_put lvl key value = (Inr w, lvl') \<Longrightarrow> every_level_holds lvl' key value"
proof (induction lvl key "value" arbitrary: lvl' w rule: CacheLevel_put.induct)
  case (1 nm c nxt key "value")
  obtain r c' where cp: "Cache_put c key value = (r, c')" by force
  with "1.prems" have r: "r = Inr ()" by (auto split: sum.splits)
  with cp have here: "Cache_get c' key = Inr value" by (simp add: Cache_put_get)
  show ?case
  proof (cases nxt)
    case None
    with "1.prems" cp r here show ?thesis by auto
  next
    case (Some n)
    obtain r' n' where np: "CacheLevel_put n key value = (r', n')" by force
    with "1.prems" cp r Some
    have ok: "r' = Inr WriteResponse" "lvl' = CacheLevel nm c' (Some n')"
      by (auto split: sum.splits intro: write_response_eq)
    from "1.IH" cp r Some np ok
    have "every_level_holds n' key value" by auto
    with ok here show ?thesis by simp
  qed
qed

text \<open>
  C6. After a \<^verbatim>\<open>MultilevelCache.put(y, v)\<close> that returns, every level of the chain,
  asked on its own through the \<^verbatim>\<open>get\<close> of its cache, returns \<^verbatim>\<open>v\<close> for \<^verbatim>\<open>y\<close>:
  \<^verbatim>\<open>CacheLevel.put\<close> writes to its cache and then to the next level before it returns.
\<close>

theorem put_reaches_every_level:
  assumes "fst (MultilevelCache_put m key value) = Inr ()"
  shows "case front_cache_level (snd (MultilevelCache_put m key value)) of
           None \<Rightarrow> False
         | Some front' \<Rightarrow> every_level_holds front' key value"
proof (cases "front_cache_level m")
  case None
  with assms show ?thesis by (simp add: MultilevelCache_put_def)
next
  case (Some front)
  obtain r front' where lp: "CacheLevel_put front key value = (r, front')" by force
  with assms Some obtain w where "r = Inr w"
    by (auto simp: MultilevelCache_put_def split: sum.splits)
  with lp Some CacheLevel_put_write_through [of front key "value" w front']
  show ?thesis by (simp add: MultilevelCache_put_def)
qed

theorem put_reaches_every_level_witness:
  "fst (MultilevelCache_put mlcache ''y'' (Raw 121)) = Inr () \<and>
   (case front_cache_level (snd (MultilevelCache_put mlcache ''y'' (Raw 121))) of
      None \<Rightarrow> False
    | Some front' \<Rightarrow> every_level_holds front' ''y'' (Raw 121))"
proof -
  have ok: "fst (MultilevelCache_put mlcache ''y'' (Raw 121)) = Inr ()"
    by code_simp
  from put_reaches_every_level [OF ok] ok show ?thesis by simp
qed


section \<open>Read-through\<close>

text \<open>
  C1. The claim: when the front level misses and the back level holds \<^verbatim>\<open>x\<close>,
  \<^verbatim>\<open>MultilevelCache.get(x)\<close> returns the value stored at the back, not a wrapper, and the
  front level then maps \<^verbatim>\<open>x\<close> to that value. The code at this input: the front level
  of a two-level chain is empty, the back level holds \<^verbatim>\<open>x\<close> with the value 120. The
  handler of \<^verbatim>\<open>CacheLevel.get\<close> takes the \<^verbatim>\<open>ReadResponse\<close> of the back level for the
  value (\<^verbatim>\<open>value = self.next.get(key)\<close>), so the caller receives a \<^verbatim>\<open>ReadResponse\<close>
  around 120 and the front level stores that same object under \<^verbatim>\<open>x\<close>.
\<close>

theorem read_through_returns_wrapper:
  "(let back = CacheLevel ''L2''
                 (snd (Cache_put (Cache_init (Finite 5)) ''x'' (Raw (120::nat)))) None;
        front = CacheLevel ''L1'' (Cache_init (Finite 5)) (Some back);
        m = MultilevelCache_init (Some front) 5;
        m' = snd (MultilevelCache_get m ''x'')
    in \<not> holds front ''x'' \<and> Cache_get (cache_provider back) ''x'' = Inr (Raw 120) \<and>
       fst (MultilevelCache_get m ''x'') = Inr (ReadResponse (Raw 120)) \<and>
       map_option (\<lambda>f. Cache_get (cache_provider f) ''x'') (front_cache_level m')
         = Some (Inr (ReadResponse (Raw 120))))"
  by code_simp


section \<open>The shape of the recency list\<close>

text \<open>
  C3. The claim: after every \<^verbatim>\<open>key_accessed\<close> and \<^verbatim>\<open>key_to_remove\<close> the list has no
  cycle, the head has no predecessor, the tail has no successor, and every tracked
  record is in the list once. The code at the first access of a new policy:
  \<^verbatim>\<open>self.head.next = self.tail\<close> and \<^verbatim>\<open>self.tail.prev = self.head\<close> link the only node
  to itself. After the accesses \<^verbatim>\<open>a\<close>, \<^verbatim>\<open>b\<close>, \<^verbatim>\<open>a\<close> the node of \<^verbatim>\<open>a\<close> is head and
  tail at once while two keys are tracked, and the \<^verbatim>\<open>next\<close> references run in a circle.
  After one more access, \<^verbatim>\<open>c\<close>, \<^verbatim>\<open>key_to_remove\<close> hands out \<^verbatim>\<open>a\<close>, although \<^verbatim>\<open>b\<close> was
  accessed before it.
\<close>

theorem first_node_links_to_itself:
  "(let p0 = LRUKeyAccessPolicy_init :: string LRUKeyAccessPolicy;
        p1 = snd (key_accessed p0 ''a'');
        p2 = snd (key_accessed p1 ''b'');
        p3 = snd (key_accessed p2 ''a'');
        p4 = snd (key_accessed p3 ''c'')
    in head (ll p1) = Some 0 \<and> tail (ll p1) = Some 0 \<and>
       next (ll p1) 0 = Some 0 \<and> prev (ll p1) 0 = Some 0 \<and>
       hashmap p3 = [(''a'', 0), (''b'', 1)] \<and>
       head (ll p3) = Some 0 \<and> tail (ll p3) = Some 0 \<and>
       next (ll p3) 0 = Some 1 \<and> next (ll p3) 1 = Some 0 \<and>
       fst (key_to_remove p4) = Inr ''a'')"
  by code_simp


section \<open>Puts below capacity\<close>

text \<open>
  C5, as the specification has it: when the distinct keys of a run of puts do not
  exceed the capacity, every key put is retrievable with its last value. With capacity
  2 the run \<^verbatim>\<open>put a\<close>, \<^verbatim>\<open>put b\<close>, \<^verbatim>\<open>put b\<close> has two distinct keys; the third put
  finds the storage full, \<^verbatim>\<open>Cache.put\<close> evicts \<^verbatim>\<open>a\<close> and then overwrites \<^verbatim>\<open>b\<close>, and
  \<^verbatim>\<open>a\<close> is gone.
\<close>

theorem overwrite_at_capacity_loses_key_counterexample:
  "(let ops = [(''a'', 1), (''b'', 2), (''b'', 3 :: nat)];
        c = snd (Cache_puts (Cache_init (Finite 2)) ops)
    in int (card (fst ` set ops)) \<le> 2 \<and>
       fst (Cache_puts (Cache_init (Finite 2)) ops) = Inr () \<and>
       Cache_get c ''a'' = Inl KeyError)"
  by code_simp

lemma make_node_head_safe:
  assumes "head l = Some node \<or> prev l node \<noteq> None \<or> next l node = None"
  shows "fst (make_node_head l node) = Inr () \<and>
         head (snd (make_node_head l node)) = Some node \<and>
         fresh (snd (make_node_head l node)) = fresh l \<and>
         (\<forall>n. n \<noteq> node \<longrightarrow> (head l = Some n \<or> prev l n \<noteq> None) \<longrightarrow>
              prev (snd (make_node_head l node)) n \<noteq> None)"
proof (cases l node rule: make_node_head_cases)
  case is_head
  then show ?thesis by (simp add: make_node_head_is_head)
next
  case empty
  then show ?thesis by (simp add: make_node_head_empty)
next
  case (detached h)
  then show ?thesis by (simp add: make_node_head_detached)
next
  case (error h nx)
  with assms show ?thesis by simp
next
  case (tail h p)
  then show ?thesis by (simp add: make_node_head_tail)
next
  case (interior h p nx)
  then show ?thesis by (simp add: make_node_head_interior)
qed

lemma tracked_okI:
  assumes "\<And>n. n \<in> snd ` set (hashmap p) \<Longrightarrow>
             n < fresh (ll p) \<and> (head (ll p) = Some n \<or> prev (ll p) n \<noteq> None)"
    and "\<And>h. head (ll p) = Some h \<Longrightarrow> h < fresh (ll p)"
  shows "tracked_ok p"
  using assms by (simp add: tracked_ok_def)

lemma snd_set_update:
  "snd ` set (AList.update k v al) \<subseteq> insert v (snd ` set al)"
  by (induction al) auto

lemma key_accessed_safe:
  assumes "tracked_ok p"
  shows "fst (key_accessed p key) = Inr () \<and> tracked_ok (snd (key_accessed p key))"
proof (cases "map_of (hashmap p) key")
  case None
  let ?n = "fresh (ll p)"
  let ?l1 = "snd (Node (ll p) key)"
  let ?p' = "p\<lparr>hashmap := AList.update key ?n (hashmap p), ll := snd (make_node_head ?l1 ?n)\<rparr>"
  have pre: "head ?l1 = Some ?n \<or> prev ?l1 ?n \<noteq> None \<or> next ?l1 ?n = None"
    by (simp add: Node_def)
  note m = make_node_head_safe [OF pre]
  have ka: "key_accessed p key = (fst (make_node_head ?l1 ?n), ?p')"
    using None by (simp add: key_accessed_def Node_def Let_def split: prod.splits)
  have "tracked_ok ?p'"
  proof (rule tracked_okI)
    fix n assume "n \<in> snd ` set (hashmap ?p')"
    then have "n = ?n \<or> n \<in> snd ` set (hashmap p)"
      using snd_set_update [of key ?n "hashmap p"] by auto
    then show "n < fresh (ll ?p') \<and> (head (ll ?p') = Some n \<or> prev (ll ?p') n \<noteq> None)"
    proof
      assume "n = ?n"
      with m show ?thesis by (simp add: Node_def)
    next
      assume old: "n \<in> snd ` set (hashmap p)"
      with assms have lt: "n < ?n" and hp: "head (ll p) = Some n \<or> prev (ll p) n \<noteq> None"
        by (auto simp: tracked_ok_def)
      from hp lt have "head ?l1 = Some n \<or> prev ?l1 n \<noteq> None" by (auto simp: Node_def)
      with m lt have "prev (snd (make_node_head ?l1 ?n)) n \<noteq> None" by auto
      with m lt show ?thesis by (simp add: Node_def)
    qed
  next
    fix h assume "head (ll ?p') = Some h"
    with m show "h < fresh (ll ?p')" by (simp add: Node_def)
  qed
  with ka m show ?thesis by simp
next
  case (Some node)
  let ?p' = "p\<lparr>ll := snd (make_node_head (ll p) node)\<rparr>"
  from Some have mem: "node \<in> snd ` set (hashmap p)"
    by (auto dest!: map_of_SomeD intro: rev_image_eqI)
  with assms
  have pre: "head (ll p) = Some node \<or> prev (ll p) node \<noteq> None \<or> next (ll p) node = None"
    by (auto simp: tracked_ok_def)
  note m = make_node_head_safe [OF pre]
  have ka: "key_accessed p key = (fst (make_node_head (ll p) node), ?p')"
    using Some by (simp add: key_accessed_def split: prod.splits)
  have "tracked_ok ?p'"
  proof (rule tracked_okI)
    fix n assume "n \<in> snd ` set (hashmap ?p')"
    then have old: "n \<in> snd ` set (hashmap p)" by simp
    with assms have lt: "n < fresh (ll p)"
      and hp: "head (ll p) = Some n \<or> prev (ll p) n \<noteq> None"
      by (auto simp: tracked_ok_def)
    show "n < fresh (ll ?p') \<and> (head (ll ?p') = Some n \<or> prev (ll ?p') n \<noteq> None)"
    proof (cases "n = node")
      case True
      with m lt show ?thesis by simp
    next
      case False
      with m hp have "prev (snd (make_node_head (ll p) node)) n \<noteq> None" by auto
      with m lt show ?thesis by simp
    qed
  next
    fix h assume "head (ll ?p') = Some h"
    with m have "h = node" by simp
    with mem assms m show "h < fresh (ll ?p')" by (auto simp: tracked_ok_def)
  qed
  with ka m show ?thesis by simp
qed


lemma tracked_ok_init: "tracked_ok LRUKeyAccessPolicy_init"
  by (simp add: tracked_ok_def LRUKeyAccessPolicy_init_def LL_init_def)

lemma Cache_put_below_capacity:
  assumes "tracked_ok (key_access_policy c)"
    and "capacity (storage c) \<noteq> Finite (int (len (db (storage c))))"
  shows "fst (Cache_put c key value) = Inr () \<and>
         tracked_ok (key_access_policy (snd (Cache_put c key value))) \<and>
         capacity (storage (snd (Cache_put c key value))) = capacity (storage c) \<and>
         db (storage (snd (Cache_put c key value))) = AList.update key value (db (storage c))"
proof -
  let ?c' = "c\<lparr>storage := (storage c)\<lparr>db := AList.update key value (db (storage c))\<rparr>,
                key_access_policy := snd (key_accessed (key_access_policy c) key)\<rparr>"
  note k = key_accessed_safe [OF assms(1), of key]
  from assms(2) have "put_try c key value = (fst (key_accessed (key_access_policy c) key), ?c')"
    by (auto simp: put_try_def Storage_put_def split: prod.splits)
  with k have "put_try c key value = (Inr (), ?c')" by simp
  from Cache_put_not_full [OF this] have "Cache_put c key value = (Inr (), ?c')" by simp
  with k show ?thesis by simp
qed

lemma Cache_puts_below_capacity:
  assumes "tracked_ok (key_access_policy c)"
    and "\<forall>i<length ops. capacity (storage c) \<noteq>
           Finite (int (card (fst ` set (db (storage c)) \<union> fst ` set (take i ops))))"
  shows "fst (Cache_puts c ops) = Inr () \<and>
         map_of (db (storage (snd (Cache_puts c ops)))) = map_of (db (storage c)) ++ map_of (rev ops)"
  using assms
proof (induction ops arbitrary: c)
  case Nil
  then show ?case by simp
next
  case (Cons op ops)
  obtain key "value" where op: "op = (key, value)" by (cases op)
  let ?c1 = "snd (Cache_put c key value)"
  from Cons.prems(2) have "capacity (storage c) \<noteq> Finite (int (len (db (storage c))))"
    by (auto simp: len_def)
  note step = Cache_put_below_capacity [OF Cons.prems(1) this, of key "value"]
  have rest: "\<forall>i<length ops. capacity (storage ?c1) \<noteq>
           Finite (int (card (fst ` set (db (storage ?c1)) \<union> fst ` set (take i ops))))"
  proof (intro allI impI)
    fix i assume "i < length ops"
    with Cons.prems(2) op
    have "capacity (storage c) \<noteq>
           Finite (int (card (fst ` set (db (storage c)) \<union> fst ` set ((key, value) # take i ops))))"
      by (auto dest: spec [of _ "Suc i"])
    moreover have "fst ` set (db (storage ?c1)) \<union> fst ` set (take i ops)
        = fst ` set (db (storage c)) \<union> fst ` set ((key, value) # take i ops)"
      using step by (auto simp: dom_update)
    ultimately show "capacity (storage ?c1) \<noteq>
           Finite (int (card (fst ` set (db (storage ?c1)) \<union> fst ` set (take i ops))))"
      using step by simp
  qed
  from step have run: "Cache_puts c (op # ops) = Cache_puts ?c1 ops"
    by (auto simp: op split: prod.splits sum.splits)
  from Cons.IH [of ?c1] step rest
  have "fst (Cache_puts ?c1 ops) = Inr ()"
    and "map_of (db (storage (snd (Cache_puts ?c1 ops))))
           = map_of (db (storage ?c1)) ++ map_of (rev ops)"
    by simp_all
  with run step op show ?case
    by (simp add: update_conv' map_add_upd_left)
qed


text \<open>
  C5, amended. Take a new cache and a run of puts in which no put is issued while the
  storage holds exactly as many keys as its capacity says: before each put, the number
  of distinct keys written so far differs from the capacity. (Every run with fewer
  distinct keys than the capacity is such a run, and so is every run on an unbounded
  storage.) Then every put returns, and every key put is retrievable through
  \<^verbatim>\<open>Cache.get\<close> with the value written last for it.
\<close>

theorem puts_below_capacity_keep_everything:
  fixes ops :: "('k \<times> 'v) list"
  assumes "\<forall>i<length ops. cap \<noteq> Finite (int (card (fst ` set (take i ops))))"
  shows "fst (Cache_puts (Cache_init cap) ops) = Inr () \<and>
         (\<forall>key \<in> fst ` set ops. \<exists>value.
             map_of (rev ops) key = Some value \<and>
             Cache_get (snd (Cache_puts (Cache_init cap) ops)) key = Inr value)"
proof -
  let ?c = "Cache_init cap :: ('k, 'v) Cache"
  have t: "tracked_ok (key_access_policy ?c)"
    by (simp add: Cache_init_def tracked_ok_init)
  have "\<forall>i<length ops. capacity (storage ?c) \<noteq>
           Finite (int (card (fst ` set (db (storage ?c)) \<union> fst ` set (take i ops))))"
    using assms by (simp add: Cache_init_def HashMapBasedStorage_init_def)
  from Cache_puts_below_capacity [OF t this]
  have ok: "fst (Cache_puts ?c ops) = Inr ()"
    and m: "map_of (db (storage (snd (Cache_puts ?c ops)))) = map_of (rev ops)"
    by (simp_all add: Cache_init_def HashMapBasedStorage_init_def)
  have "\<exists>value. map_of (rev ops) key = Some value \<and>
          Cache_get (snd (Cache_puts ?c ops)) key = Inr value"
    if "key \<in> fst ` set ops" for key
  proof -
    from that have "map_of (rev ops) key \<noteq> None"
      by (simp add: map_of_eq_None_iff)
    then obtain "value" where "map_of (rev ops) key = Some value" by auto
    with m show ?thesis by (simp add: Cache_get_def Storage_get_def)
  qed
  with ok show ?thesis by blast
qed

theorem puts_below_capacity_keep_everything_witness:
  "fst (Cache_puts (Cache_init (Finite 3)) [(''a'', 1), (''b'', 2), (''a'', 3 :: nat)]) = Inr () \<and>
   Cache_get (snd (Cache_puts (Cache_init (Finite 3)) [(''a'', 1), (''b'', 2), (''a'', 3 :: nat)])) ''a''
     = Inr 3 \<and>
   Cache_get (snd (Cache_puts (Cache_init (Finite 3)) [(''a'', 1), (''b'', 2), (''a'', 3 :: nat)])) ''b''
     = Inr 2"
proof -
  have h: "\<forall>i<length [(''a'', 1), (''b'', 2), (''a'', 3 :: nat)].
      Finite 3 \<noteq> Finite (int (card (fst ` set (take i [(''a'', 1), (''b'', 2), (''a'', 3 :: nat)]))))"
    by (simp add: less_Suc_eq take_Suc_conv_app_nth all_conj_distrib imp_conjL) 
  from puts_below_capacity_keep_everything [OF h] show ?thesis
    by simp
qed


end
